theory Spec2Isabelle
  imports Main "HOL-Library.AList"
begin

section \<open>Python strings\<close>

text \<open>
  A Python 3 \<^verbatim>\<open>str\<close> is a sequence of Unicode code points, so a string is a list
  of natural numbers here (an accented letter such as U+00E9 is one element, as in
  Python, and not the two bytes of its UTF-8 form). \<open>str\<close> reads an ASCII literal.
  The code points written as numbers below: 10 is the newline, 13 the carriage return,
  32 the space, 45 the hyphen, 47 the slash, 58 the colon, 95 the underscore and 233 the
  letter e with an acute accent.
\<close>

type_synonym codepoint = nat
type_synonym pystr = "codepoint list"

definition str :: "string \<Rightarrow> pystr" where
  "str s = map of_char s"

text \<open>
  \<^verbatim>\<open>str.isspace\<close>, which is also what \<^verbatim>\<open>str.strip()\<close> trims and what \<^verbatim>\<open>\s\<close>
  matches in a \<^verbatim>\<open>str\<close> pattern: the 29 code points of CPython's
  \<^verbatim>\<open>Py_UNICODE_ISSPACE\<close>.
\<close>

definition py_isspace :: "codepoint \<Rightarrow> bool" where
  "py_isspace c \<longleftrightarrow>
     (9 \<le> c \<and> c \<le> 13) \<or> (28 \<le> c \<and> c \<le> 32) \<or> c = 133 \<or> c = 160 \<or> c = 5760 \<or>
     (8192 \<le> c \<and> c \<le> 8202) \<or> c = 8232 \<or> c = 8233 \<or> c = 8239 \<or> c = 8287 \<or>
     c = 12288"

definition py_lstrip :: "pystr \<Rightarrow> pystr" where
  "py_lstrip s = dropWhile py_isspace s"

definition py_rstrip :: "pystr \<Rightarrow> pystr" where
  "py_rstrip s = rev (dropWhile py_isspace (rev s))"

definition py_strip :: "pystr \<Rightarrow> pystr" where
  "py_strip s = py_rstrip (py_lstrip s)"

text \<open>
  \<^verbatim>\<open>str.splitlines()\<close>: the line boundaries are LF, VT, FF, CR, CR LF, FS, GS, RS,
  NEL, LS and PS; the terminators are not kept, and no empty last line is produced.
\<close>

definition is_linebreak :: "codepoint \<Rightarrow> bool" where
  "is_linebreak c \<longleftrightarrow>
     (10 \<le> c \<and> c \<le> 13) \<or> (28 \<le> c \<and> c \<le> 30) \<or> c = 133 \<or> c = 8232 \<or> c = 8233"

fun cons_first :: "'a \<Rightarrow> 'a list list \<Rightarrow> 'a list list" where
  "cons_first c [] = [[c]]"
| "cons_first c (l # ls) = (c # l) # ls"

fun splitlines :: "pystr \<Rightarrow> pystr list" where
  "splitlines [] = []"
| "splitlines [c] = (if is_linebreak c then [[]] else [[c]])"
| "splitlines (c # d # cs) =
     (if c = 13 \<and> d = 10 then [] # splitlines cs
      else if is_linebreak c then [] # splitlines (d # cs)
      else cons_first c (splitlines (d # cs)))"

section \<open>Errors and files\<close>

text \<open>
  The faults the program can raise: \<^verbatim>\<open>open\<close> on a missing file, \<^verbatim>\<open>[0]\<close> on an
  empty list, a dictionary lookup of a missing key. The file system is a map from path
  to text content; the text is what Python's text layer hands to the program (decoded,
  newlines already translated to LF on reading).
\<close>

datatype error = FileNotFoundError | IndexError | KeyError

type_synonym filesystem = "pystr \<rightharpoonup> pystr"

section \<open>read\_clippings\<close>

text \<open>
  Iterating over a text file yields its lines, each with its terminating LF; only the
  last line can lack one, and no line is empty.
\<close>

fun file_lines :: "pystr \<Rightarrow> pystr list" where
  "file_lines [] = []"
| "file_lines (c # cs) = (if c = 10 then [c] # file_lines cs else cons_first c (file_lines cs))"

definition marker :: pystr where
  "marker = str ''==========''"

text \<open>
  The loop of \<^verbatim>\<open>read_clippings\<close> over the lines, on the pair
  \<^verbatim>\<open>(clippings, current_clipping)\<close>.
\<close>

fun read_loop :: "pystr list \<times> pystr list \<Rightarrow> pystr list \<Rightarrow> pystr list \<times> pystr list" where
  "read_loop (clippings, current_clipping) [] = (clippings, current_clipping)"
| "read_loop (clippings, current_clipping) (line # rest) =
     (if py_strip line = marker then
        (if current_clipping \<noteq> [] then read_loop (clippings @ [concat current_clipping], []) rest
         else read_loop (clippings, current_clipping) rest)
      else read_loop (clippings, current_clipping @ [line]) rest)"

text \<open>The statement after the loop, which stores the last clipping (if any).\<close>

definition emit_last :: "pystr list \<times> pystr list \<Rightarrow> pystr list" where
  "emit_last st =
     (case st of
        (clippings, current_clipping) \<Rightarrow>
          if current_clipping \<noteq> [] then clippings @ [concat current_clipping] else clippings)"

definition read_text :: "pystr \<Rightarrow> pystr list" where
  "read_text content = emit_last (read_loop ([], []) (file_lines content))"

definition read_clippings :: "filesystem \<Rightarrow> pystr \<Rightarrow> error + pystr list" where
  "read_clippings fs filename =
     (case fs filename of
        None \<Rightarrow> Inl FileNotFoundError
      | Some content \<Rightarrow> Inr (read_text content))"

text \<open>
  The specification's view of the same result. A separator line is a line whose
  trimmed content is the marker; the separator-bounded segments of a list of lines are
  the runs of lines between separator lines (there is one more segment than there are
  separators, and a segment can be empty); rejoining puts the marker line between
  consecutive blocks.
\<close>

definition is_separator :: "pystr \<Rightarrow> bool" where
  "is_separator line \<longleftrightarrow> py_strip line = marker"

fun segments :: "pystr list \<Rightarrow> pystr list list" where
  "segments [] = [[]]"
| "segments (line # rest) =
     (if is_separator line then [] # segments rest else cons_first line (segments rest))"

text \<open>
  The segments of the lines still to be read, when \<open>cur\<close> has been accumulated: the
  first of them continues \<open>cur\<close>.
\<close>

fun prepend_lines :: "pystr list \<Rightarrow> pystr list list \<Rightarrow> pystr list list" where
  "prepend_lines cur [] = [cur]"
| "prepend_lines cur (s # ss) = (cur @ s) # ss"

definition separator_line :: pystr where
  "separator_line = marker @ [10]"

fun rejoin :: "pystr list \<Rightarrow> pystr" where
  "rejoin [] = []"
| "rejoin [b] = b"
| "rejoin (b # b' # bs) = b @ separator_line @ rejoin (b' # bs)"

section \<open>separate\_clippings\_by\_title\<close>

text \<open>
  A Python dictionary keeps its keys in insertion order, and assigning to a key that is
  present keeps the key's place: an association list under \<open>AList.update\<close>.
  \<^verbatim>\<open>current_book\<close> starts as \<^verbatim>\<open>None\<close>.
\<close>

type_synonym book_dict = "(pystr \<times> pystr list) list"

definition title_of :: "pystr \<Rightarrow> error + pystr" where
  "title_of clipping =
     (case splitlines clipping of
        [] \<Rightarrow> Inl IndexError
      | first_line # _ \<Rightarrow> Inr (py_strip first_line))"

definition separate_step ::
  "book_dict \<times> pystr option \<Rightarrow> pystr \<Rightarrow> error + book_dict \<times> pystr option" where
  "separate_step st clipping =
     (case title_of clipping of
        Inl e \<Rightarrow> Inl e
      | Inr title \<Rightarrow>
          (case (if Some title \<noteq> snd st then (AList.update title [] (fst st), Some title) else st) of
             (book_dict, current_book) \<Rightarrow>
               (case current_book of
                  None \<Rightarrow> Inl KeyError
                | Some key \<Rightarrow>
                    (case map_of book_dict key of
                       None \<Rightarrow> Inl KeyError
                     | Some entries \<Rightarrow>
                         Inr (AList.update key (entries @ [clipping]) book_dict, current_book)))))"

fun separate_loop ::
  "book_dict \<times> pystr option \<Rightarrow> pystr list \<Rightarrow> error + book_dict \<times> pystr option" where
  "separate_loop st [] = Inr st"
| "separate_loop st (clipping # rest) =
     (case separate_step st clipping of
        Inl e \<Rightarrow> Inl e
      | Inr st' \<Rightarrow> separate_loop st' rest)"

definition separate_clippings_by_title :: "pystr list \<Rightarrow> error + book_dict" where
  "separate_clippings_by_title clippings =
     (case separate_loop ([], None) clippings of
        Inl e \<Rightarrow> Inl e
      | Inr (book_dict, current_book) \<Rightarrow> Inr book_dict)"

text \<open>
  The specification's "most recent contiguous run" of a title in a sequence of blocks:
  scanning from the end, skip to the last block with that title and take the blocks
  before it for as long as they carry the title.
\<close>

definition last_run :: "pystr \<Rightarrow> pystr list \<Rightarrow> pystr list" where
  "last_run t clippings =
     rev (takeWhile (\<lambda>b. title_of b = Inr t) (dropWhile (\<lambda>b. title_of b \<noteq> Inr t) (rev clippings)))"

section \<open>clean\_title\<close>

text \<open>
  \<^verbatim>\<open>\w\<close> in a \<^verbatim>\<open>str\<close> pattern matches the underscore and every code point for
  which \<^verbatim>\<open>str.isalnum\<close> holds. That predicate is a table of the Unicode database:
  it is written out for U+0000 to U+00FF, and its values above U+00FF are a parameter,
  as is the NFKD normal form.
\<close>

record unicode_db =
  isalnum_above_latin1 :: "codepoint \<Rightarrow> bool"
  nfkd :: "pystr \<Rightarrow> pystr"

definition latin1_isalnum :: "codepoint \<Rightarrow> bool" where
  "latin1_isalnum c \<longleftrightarrow>
     (48 \<le> c \<and> c \<le> 57) \<or> (65 \<le> c \<and> c \<le> 90) \<or> (97 \<le> c \<and> c \<le> 122) \<or>
     c = 170 \<or> c = 178 \<or> c = 179 \<or> c = 181 \<or> c = 185 \<or> c = 186 \<or>
     (188 \<le> c \<and> c \<le> 190) \<or> (192 \<le> c \<and> c \<le> 214) \<or> (216 \<le> c \<and> c \<le> 246) \<or>
     (248 \<le> c \<and> c \<le> 255)"

definition py_isalnum :: "unicode_db \<Rightarrow> codepoint \<Rightarrow> bool" where
  "py_isalnum U c = (if c < 256 then latin1_isalnum c else isalnum_above_latin1 U c)"

definition word_char :: "unicode_db \<Rightarrow> codepoint \<Rightarrow> bool" where
  "word_char U c \<longleftrightarrow> py_isalnum U c \<or> c = 95"

text \<open>The character class \<^verbatim>\<open>[^\w\s-]\<close>.\<close>

definition not_word_space_hyphen :: "unicode_db \<Rightarrow> codepoint \<Rightarrow> bool" where
  "not_word_space_hyphen U c \<longleftrightarrow> \<not> (word_char U c \<or> py_isspace c \<or> c = 45)"

text \<open>
  \<^verbatim>\<open>re.sub\<close> for a pattern that is one character class: every matching character
  is replaced by the replacement string. \<^verbatim>\<open>str.replace\<close> for a one-character
  \<^verbatim>\<open>old\<close>. \<^verbatim>\<open>encode("ASCII", "ignore").decode()\<close> drops what is not ASCII.
\<close>

fun re_sub :: "(codepoint \<Rightarrow> bool) \<Rightarrow> pystr \<Rightarrow> pystr \<Rightarrow> pystr" where
  "re_sub matches repl [] = []"
| "re_sub matches repl (c # cs) =
     (if matches c then repl @ re_sub matches repl cs else c # re_sub matches repl cs)"

fun py_replace :: "codepoint \<Rightarrow> pystr \<Rightarrow> pystr \<Rightarrow> pystr" where
  "py_replace old new [] = []"
| "py_replace old new (c # cs) =
     (if c = old then new @ py_replace old new cs else c # py_replace old new cs)"

definition encode_ascii_ignore :: "pystr \<Rightarrow> pystr" where
  "encode_ascii_ignore s = filter (\<lambda>c. c < 128) s"

definition clean_title :: "unicode_db \<Rightarrow> pystr \<Rightarrow> pystr" where
  "clean_title U title =
     (let normalized_title = encode_ascii_ignore (nfkd U title);
          safe_title = py_replace 58 (str ''_'') (py_replace 47 (str ''-'') normalized_title);
          safe_title = re_sub (not_word_space_hyphen U) [] title
      in safe_title)"

text \<open>
  The specification's sanitizer: delete from the title every character that matches
  \<^verbatim>\<open>[^\w\s-]\<close>.
\<close>

definition delete_matching :: "unicode_db \<Rightarrow> pystr \<Rightarrow> pystr" where
  "delete_matching U title = filter (\<lambda>c. \<not> not_word_space_hyphen U c) title"

section \<open>save\_clippings\_to\_md\_files\<close>

text \<open>
  \<^verbatim>\<open>os.path.join\<close> of two components (POSIX). A file opened with mode \<^verbatim>\<open>"w"\<close>
  starts empty, one opened with mode \<^verbatim>\<open>"a"\<close> starts with its present content;
  each \<^verbatim>\<open>write\<close> appends. Directories are not part of the file system map, so
  \<^verbatim>\<open>os.makedirs\<close> leaves it as it is; creating the directory and opening a target
  file are taken to succeed.
\<close>

definition os_path_join :: "pystr \<Rightarrow> pystr \<Rightarrow> pystr" where
  "os_path_join a b =
     (if b \<noteq> [] \<and> hd b = 47 then b
      else if a = [] \<or> last a = 47 then a @ b
      else a @ [47] @ b)"

datatype file_mode = Append | Write

definition open_file :: "filesystem \<Rightarrow> pystr \<Rightarrow> file_mode \<Rightarrow> pystr" where
  "open_file fs filepath mode =
     (case mode of
        Write \<Rightarrow> []
      | Append \<Rightarrow> (case fs filepath of None \<Rightarrow> [] | Some content \<Rightarrow> content))"

fun write_clippings :: "pystr \<Rightarrow> pystr list \<Rightarrow> pystr" where
  "write_clippings file [] = file"
| "write_clippings file (clipping # rest) =
     write_clippings (((file @ [10]) @ clipping) @ ([10] @ str ''---'' @ [10])) rest"

definition target_path :: "unicode_db \<Rightarrow> pystr \<Rightarrow> pystr \<Rightarrow> pystr" where
  "target_path U output_dir title = os_path_join output_dir (clean_title U title @ str ''.md'')"

fun save_loop :: "unicode_db \<Rightarrow> pystr \<Rightarrow> filesystem \<Rightarrow> book_dict \<Rightarrow> filesystem" where
  "save_loop U output_dir fs [] = fs"
| "save_loop U output_dir fs ((title, clippings) # rest) =
     (let filepath = target_path U output_dir title;
          mode = (if fs filepath \<noteq> None then Append else Write);
          file = write_clippings (open_file fs filepath mode) clippings
      in save_loop U output_dir (fs(filepath \<mapsto> file)) rest)"

definition save_clippings_to_md_files ::
  "unicode_db \<Rightarrow> filesystem \<Rightarrow> book_dict \<Rightarrow> pystr \<Rightarrow> filesystem" where
  "save_clippings_to_md_files U fs book_dict output_dir = save_loop U output_dir fs book_dict"

text \<open>What the writer emits for one block, and for a list of blocks.\<close>

definition entry :: "pystr \<Rightarrow> pystr" where
  "entry clipping = [10] @ clipping @ [10] @ str ''---'' @ [10]"

definition entries :: "pystr list \<Rightarrow> pystr" where
  "entries clippings = concat (map entry clippings)"

text \<open>
  What one run of the writer appends to the file at path \<open>p\<close>: the entries of every
  title of the dictionary whose target is \<open>p\<close>, in the dictionary's order. The
  content a file has before a run is empty when the file does not exist.
\<close>

definition written :: "unicode_db \<Rightarrow> pystr \<Rightarrow> book_dict \<Rightarrow> pystr \<Rightarrow> pystr" where
  "written U output_dir book_dict p =
     concat (map (\<lambda>kv. entries (snd kv))
       (filter (\<lambda>kv. target_path U output_dir (fst kv) = p) book_dict))"

definition previous :: "filesystem \<Rightarrow> pystr \<Rightarrow> pystr" where
  "previous fs p = (case fs p of None \<Rightarrow> [] | Some content \<Rightarrow> content)"

section \<open>Lines, segments and trimming\<close>

lemma cons_first_not_Nil: "cons_first c ls \<noteq> []"
  by (cases ls) simp_all

lemma concat_cons_first: "concat (cons_first c ls) = c # concat ls"
  by (cases ls) simp_all

lemma set_cons_first_nonempty: "[] \<notin> set ls \<Longrightarrow> [] \<notin> set (cons_first c ls)"
  by (cases ls) auto

lemma concat_file_lines: "concat (file_lines s) = s"
  by (induction s) (simp_all add: concat_cons_first)

lemma file_lines_nonempty: "[] \<notin> set (file_lines s)"
  by (induction s) (auto simp: set_cons_first_nonempty)

lemma segments_not_Nil: "segments ls \<noteq> []"
  by (cases ls) (simp_all add: cons_first_not_Nil)

lemma prepend_cons_first: "prepend_lines cur (cons_first l ss) = prepend_lines (cur @ [l]) ss"
  by (cases ss) simp_all

lemma prepend_Nil: "ss \<noteq> [] \<Longrightarrow> prepend_lines [] ss = ss"
  by (cases ss) simp_all

lemma read_loop_segments:
  "emit_last (read_loop (cs, cur) ls) =
     cs @ map concat (filter (\<lambda>s. s \<noteq> []) (prepend_lines cur (segments ls)))"
proof (induction ls arbitrary: cs cur)
  case Nil
  show ?case by (simp add: emit_last_def)
next
  case (Cons l ls)
  show ?case
  proof (cases "is_separator l")
    case True
    then show ?thesis
      using Cons.IH [of "cs @ [concat cur]" "[]"] Cons.IH [of cs "[]"]
      by (cases "cur = []") (simp_all add: is_separator_def prepend_Nil segments_not_Nil)
  next
    case False
    then show ?thesis
      using Cons.IH [of cs "cur @ [l]"]
      by (simp add: is_separator_def prepend_cons_first)
  qed
qed

lemma read_text_segments:
  "read_text src = map concat (filter (\<lambda>s. s \<noteq> []) (segments (file_lines src)))"
  using read_loop_segments [of "[]" "[]" "file_lines src"]
  by (simp add: read_text_def emit_last_def prepend_Nil segments_not_Nil)


lemma segments_lines: "s \<in> set (segments ls) \<Longrightarrow> set s \<subseteq> set ls"
proof (induction ls arbitrary: s)
  case Nil
  then show ?case by simp
next
  case (Cons l ls)
  show ?case
  proof (cases "is_separator l")
    case True
    with Cons show ?thesis by auto
  next
    case False
    obtain t ts where ts: "segments ls = t # ts"
      using segments_not_Nil [of ls] by (cases "segments ls") auto
    with False Cons.prems have "s = l # t \<or> s \<in> set ts" by auto
    then show ?thesis
    proof
      assume "s = l # t"
      moreover have "set t \<subseteq> set ls" using Cons.IH [of t] ts by simp
      ultimately show ?thesis by auto
    next
      assume "s \<in> set ts"
      then have "set s \<subseteq> set ls" using Cons.IH [of s] ts by simp
      then show ?thesis by auto
    qed
  qed
qed

lemma concat_segment_nonempty:
  assumes "[] \<notin> set ls" "s \<in> set (segments ls)"
  shows "concat s = [] \<longleftrightarrow> s = []"
proof
  assume c: "concat s = []"
  show "s = []"
  proof (cases s)
    case Nil then show ?thesis .
  next
    case (Cons x xs)
    then have "x \<in> set ls" using segments_lines [OF assms(2)] by auto
    with assms(1) have "x \<noteq> []" by auto
    with c Cons show ?thesis by simp
  qed
qed simp

lemma read_text_no_empty_block: "[] \<notin> set (read_text src)"
proof
  assume "[] \<in> set (read_text src)"
  then obtain s where s: "s \<in> set (segments (file_lines src))" "s \<noteq> []" "concat s = []"
    by (auto simp: read_text_segments)
  then show False
    using concat_segment_nonempty [OF file_lines_nonempty, of s src] by simp
qed

lemma segments_snoc:
  "segments (ls @ [l]) =
     (if is_separator l then segments ls @ [[]]
      else butlast (segments ls) @ [last (segments ls) @ [l]])"
proof (induction ls)
  case Nil
  show ?case by simp
next
  case (Cons x xs)
  obtain t ts where ts: "segments xs = t # ts"
    using segments_not_Nil [of xs] by (cases "segments xs") auto
  show ?case
    using Cons.IH ts by (cases ts) (auto simp: cons_first_not_Nil)
qed

lemma last_segment: "last (segments ls) = rev (takeWhile (\<lambda>l. \<not> is_separator l) (rev ls))"
proof (induction ls rule: rev_induct)
  case Nil
  show ?case by simp
next
  case (snoc l ls)
  then show ?case by (simp add: segments_snoc segments_not_Nil)
qed

lemma concat_segments: "concat (segments ls) = filter (\<lambda>l. \<not> is_separator l) ls"
  by (induction ls) (simp_all add: concat_cons_first)

lemma concat_concat_filter: "concat (map concat (filter (\<lambda>s. s \<noteq> []) xs)) = concat (concat xs)"
  by (induction xs) simp_all

lemma concat_read_text:
  "concat (read_text src) = concat (filter (\<lambda>l. \<not> is_separator l) (file_lines src))"
  by (simp add: read_text_segments concat_concat_filter concat_segments)

lemma rejoin_append_first: "rejoin ((a @ b) # bs) = a @ rejoin (b # bs)"
  by (cases bs) simp_all

lemma rejoin_segments:
  "\<forall>l\<in>set ls. is_separator l \<longrightarrow> l = separator_line \<Longrightarrow>
     rejoin (map concat (segments ls)) = concat ls"
proof (induction ls)
  case Nil
  show ?case by simp
next
  case (Cons l ls)
  obtain t ts where ts: "segments ls = t # ts"
    using segments_not_Nil [of ls] by (cases "segments ls") auto
  show ?case
  proof (cases "is_separator l")
    case True
    with Cons ts show ?thesis by simp
  next
    case False
    have "rejoin (concat (l # t) # map concat ts) = l @ rejoin (concat t # map concat ts)"
      using rejoin_append_first [of l "concat t" "map concat ts"] by simp
    with False Cons ts show ?thesis by simp
  qed
qed

lemma nonempty_blocks_segments:
  assumes ne: "[] \<notin> set ls"
  shows "filter (\<lambda>b. b \<noteq> []) (map concat (segments ls)) =
         map concat (filter (\<lambda>s. s \<noteq> []) (segments ls))"
proof -
  have eq: "\<And>s. s \<in> set (segments ls) \<Longrightarrow> (concat s \<noteq> []) = (s \<noteq> [])"
    using concat_segment_nonempty [OF ne] by blast
  have "filter ((\<lambda>b. b \<noteq> []) \<circ> concat) (segments ls) = filter (\<lambda>s. s \<noteq> []) (segments ls)"
    by (rule filter_cong [OF refl]) (simp only: o_def eq)
  then show ?thesis by (simp only: filter_map)
qed

lemma strip_decompose:
  "\<exists>pre post. l = pre @ py_strip l @ post \<and> list_all py_isspace pre \<and> list_all py_isspace post"
proof -
  define d where "d = dropWhile py_isspace l"
  have l: "l = takeWhile py_isspace l @ d"
    by (simp add: d_def)
  have "rev (dropWhile py_isspace (rev d)) @ rev (takeWhile py_isspace (rev d)) = d"
    by (metis rev_append rev_rev_ident takeWhile_dropWhile_id)
  moreover have "py_strip l = rev (dropWhile py_isspace (rev d))"
    by (simp add: py_strip_def py_rstrip_def py_lstrip_def d_def)
  ultimately have d: "d = py_strip l @ rev (takeWhile py_isspace (rev d))"
    by simp
  have p1: "list_all py_isspace (takeWhile py_isspace l)"
    by (simp add: list_all_iff) (meson set_takeWhileD)
  have p2: "list_all py_isspace (rev (takeWhile py_isspace (rev d)))"
    by (simp add: list_all_iff) (meson set_takeWhileD)
  from l d have "l = takeWhile py_isspace l @ py_strip l @ rev (takeWhile py_isspace (rev d))"
    by simp
  with p1 p2 show ?thesis by blast
qed

lemma strip_padded:
  assumes "m \<noteq> []" "\<not> py_isspace (hd m)" "\<not> py_isspace (last m)"
    and "list_all py_isspace pre" "list_all py_isspace post"
  shows "py_strip (pre @ m @ post) = m"
proof -
  have "dropWhile py_isspace (pre @ m @ post) = dropWhile py_isspace (m @ post)"
    by (rule dropWhile_append2) (use assms(4) in \<open>simp add: list_all_iff\<close>)
  also have "\<dots> = m @ post"
    using assms(1,2) by (cases m) simp_all
  finally have a: "py_lstrip (pre @ m @ post) = m @ post"
    by (simp add: py_lstrip_def)
  have "dropWhile py_isspace (rev post @ rev m) = dropWhile py_isspace (rev m)"
    by (rule dropWhile_append2) (use assms(5) in \<open>simp add: list_all_iff\<close>)
  also have "\<dots> = rev m"
    using assms(1,3) by (cases m rule: rev_cases) simp_all
  finally show ?thesis
    using a by (simp add: py_strip_def py_rstrip_def)
qed

lemma marker_ends: "marker \<noteq> [] \<and> \<not> py_isspace (hd marker) \<and> \<not> py_isspace (last marker)"
  by (simp add: marker_def str_def py_isspace_def)

lemma is_separator_iff:
  "py_strip l = marker \<longleftrightarrow>
     (\<exists>pre post. l = pre @ marker @ post \<and> list_all py_isspace pre \<and> list_all py_isspace post)"
proof
  assume "py_strip l = marker"
  then show "\<exists>pre post. l = pre @ marker @ post \<and> list_all py_isspace pre \<and> list_all py_isspace post"
    using strip_decompose [of l] by simp
next
  assume "\<exists>pre post. l = pre @ marker @ post \<and> list_all py_isspace pre \<and> list_all py_isspace post"
  then show "py_strip l = marker"
    using strip_padded marker_ends by blast
qed

lemma last_filter_keep: "xs \<noteq> [] \<Longrightarrow> P (last xs) \<Longrightarrow> last (filter P xs) = last xs"
  by (induction xs rule: rev_induct) simp_all

lemma read_text_last:
  assumes "file_lines src \<noteq> []" "\<not> is_separator (last (file_lines src))"
  shows "read_text src \<noteq> [] \<and>
         last (read_text src) = concat (rev (takeWhile (\<lambda>l. \<not> is_separator l) (rev (file_lines src))))"
proof -
  let ?ls = "file_lines src"
  let ?segs = "segments ?ls"
  have ne: "last ?segs \<noteq> []"
    using assms by (cases ?ls rule: rev_cases) (simp_all add: last_segment)
  have f: "filter (\<lambda>s. s \<noteq> []) ?segs \<noteq> []"
    using ne last_in_set [OF segments_not_Nil, of ?ls] by (auto simp: filter_empty_conv)
  have "last (filter (\<lambda>s. s \<noteq> []) ?segs) = last ?segs"
    using ne segments_not_Nil [of ?ls] by (simp add: last_filter_keep)
  with f show ?thesis
    by (simp add: read_text_segments last_map last_segment)
qed

section \<open>Titles and runs\<close>

lemma splitlines_nonempty: "b \<noteq> [] \<Longrightarrow> splitlines b \<noteq> []"
proof (cases b)
  case Nil
  assume "b \<noteq> []"
  with Nil show ?thesis by simp
next
  case (Cons c cs)
  then show ?thesis by (cases cs) (simp_all add: cons_first_not_Nil)
qed

lemma title_of_Inr: "b \<noteq> [] \<Longrightarrow> \<exists>t. title_of b = Inr t"
  using splitlines_nonempty [of b] by (cases "splitlines b") (simp_all add: title_of_def)

lemma title_of_Inl: "title_of b = Inl e \<longleftrightarrow> b = [] \<and> e = IndexError"
proof (cases "b = []")
  case True
  then show ?thesis by (auto simp: title_of_def)
next
  case False
  then show ?thesis using title_of_Inr [of b] by auto
qed

lemma separate_loop_snoc:
  "separate_loop st (bs @ [b]) =
     (case separate_loop st bs of Inl e \<Rightarrow> Inl e | Inr st' \<Rightarrow> separate_step st' b)"
  by (induction bs arbitrary: st) (simp_all split: sum.splits)

lemma last_run_snoc:
  assumes "title_of b = Inr t"
  shows "last_run t' (bs @ [b]) =
     (if t' = t then (if bs \<noteq> [] \<and> title_of (last bs) = Inr t then last_run t bs @ [b] else [b])
      else last_run t' bs)"
proof (cases "t' = t")
  case False
  with assms show ?thesis by (simp add: last_run_def)
next
  case True
  show ?thesis
  proof (cases bs rule: rev_cases)
    case Nil
    with True assms show ?thesis by (simp add: last_run_def)
  next
    case (snoc ys y)
    with True assms show ?thesis by (simp add: last_run_def)
  qed
qed

lemma separate_step_invariant:
  assumes cur: "case cur of None \<Rightarrow> bs = [] | Some t \<Rightarrow> bs \<noteq> [] \<and> title_of (last bs) = Inr t"
    and dist: "distinct (map fst d)"
    and run: "\<And>k. map_of d k = (if Inr k \<in> title_of ` set bs then Some (last_run k bs) else None)"
    and t: "title_of b = Inr t"
  shows "\<exists>d'. separate_step (d, cur) b = Inr (d', Some t) \<and> distinct (map fst d') \<and>
           (\<forall>k. map_of d' k =
              (if Inr k \<in> title_of ` set (bs @ [b]) then Some (last_run k (bs @ [b])) else None))"
proof (cases "Some t = cur")
  case True
  with cur have bs: "bs \<noteq> []" "title_of (last bs) = Inr t" by auto
  then have "Inr t \<in> title_of ` set bs"
    by (metis image_eqI last_in_set)
  with run have look: "map_of d t = Some (last_run t bs)" by simp
  let ?d = "AList.update t (last_run t bs @ [b]) d"
  have step: "separate_step (d, cur) b = Inr (?d, Some t)"
    using True [symmetric] t look by (simp add: separate_step_def)
  have "map_of ?d k =
          (if Inr k \<in> title_of ` set (bs @ [b]) then Some (last_run k (bs @ [b])) else None)" for k
    using run [of k] bs t by (auto simp: update_conv' last_run_snoc [OF t])
  with step dist show ?thesis by (simp add: distinct_update)
next
  case False
  with cur have nb: "\<not> (bs \<noteq> [] \<and> title_of (last bs) = Inr t)"
    by (cases cur) auto
  let ?d = "AList.update t [b] d"
  have step: "separate_step (d, cur) b = Inr (?d, Some t)"
    using False t by (simp add: separate_step_def update_conv')
  have "map_of ?d k =
          (if Inr k \<in> title_of ` set (bs @ [b]) then Some (last_run k (bs @ [b])) else None)" for k
    using run [of k] nb t by (auto simp: update_conv' last_run_snoc [OF t])
  with step dist show ?thesis by (simp add: distinct_update)
qed

lemma separate_loop_invariant:
  assumes "[] \<notin> set bs"
  shows "\<exists>d cur. separate_loop ([], None) bs = Inr (d, cur) \<and>
           (case cur of None \<Rightarrow> bs = [] | Some t \<Rightarrow> bs \<noteq> [] \<and> title_of (last bs) = Inr t) \<and>
           distinct (map fst d) \<and>
           (\<forall>k. map_of d k =
              (if Inr k \<in> title_of ` set bs then Some (last_run k bs) else None))"
  using assms
proof (induction bs rule: rev_induct)
  case Nil
  show ?case by simp
next
  case (snoc b bs)
  then obtain d cur where st: "separate_loop ([], None) bs = Inr (d, cur)"
    and cur: "case cur of None \<Rightarrow> bs = [] | Some t \<Rightarrow> bs \<noteq> [] \<and> title_of (last bs) = Inr t"
    and dist: "distinct (map fst d)"
    and run: "\<And>k. map_of d k = (if Inr k \<in> title_of ` set bs then Some (last_run k bs) else None)"
    by auto
  from snoc.prems obtain t where t: "title_of b = Inr t"
    using title_of_Inr [of b] by auto
  from separate_step_invariant [OF cur dist run t]
  obtain d' where "separate_step (d, cur) b = Inr (d', Some t)" "distinct (map fst d')"
    "\<forall>k. map_of d' k =
       (if Inr k \<in> title_of ` set (bs @ [b]) then Some (last_run k (bs @ [b])) else None)"
    by blast
  with st t show ?case by (simp add: separate_loop_snoc)
qed


lemma separate_invariant:
  assumes "[] \<notin> set bs"
  shows "\<exists>d. separate_clippings_by_title bs = Inr d \<and> distinct (map fst d) \<and>
           (\<forall>k. map_of d k =
              (if Inr k \<in> title_of ` set bs then Some (last_run k bs) else None))"
  using separate_loop_invariant [OF assms] by (auto simp: separate_clippings_by_title_def)

lemma keys_of_lookup:
  assumes "\<forall>k. map_of d k = (if Inr k \<in> title_of ` set bs then Some (f k) else None)"
    and "[] \<notin> set bs"
  shows "Inr ` fst ` set d = title_of ` set bs"
proof -
  have keys: "k \<in> fst ` set d \<longleftrightarrow> Inr k \<in> title_of ` set bs" for k
    using assms(1) by (auto simp: dom_map_of_conv_image_fst [symmetric] dom_def)
  show ?thesis
  proof (intro set_eqI iffI)
    fix x :: "error + pystr"
    assume "x \<in> Inr ` fst ` set d"
    then show "x \<in> title_of ` set bs" using keys by auto
  next
    fix x :: "error + pystr"
    assume x: "x \<in> title_of ` set bs"
    then obtain b where b: "b \<in> set bs" "x = title_of b" by auto
    with assms(2) have "b \<noteq> []" by auto
    then obtain k where "title_of b = Inr k" using title_of_Inr by blast
    with b x keys [of k] show "x \<in> Inr ` fst ` set d" by auto
  qed
qed

lemma last_run_nonempty:
  assumes "Inr k \<in> title_of ` set bs"
  shows "last_run k bs \<noteq> []"
proof -
  from assms obtain b where "b \<in> set (rev bs)" "title_of b = Inr k" by auto
  then have "dropWhile (\<lambda>b. title_of b \<noteq> Inr k) (rev bs) \<noteq> []"
    by (auto simp: dropWhile_eq_Nil_conv)
  then have "title_of (hd (dropWhile (\<lambda>b. title_of b \<noteq> Inr k) (rev bs))) = Inr k"
    using hd_dropWhile [of "\<lambda>b. title_of b \<noteq> Inr k" "rev bs"] by simp
  with \<open>dropWhile (\<lambda>b. title_of b \<noteq> Inr k) (rev bs) \<noteq> []\<close> show ?thesis
    by (cases "dropWhile (\<lambda>b. title_of b \<noteq> Inr k) (rev bs)") (simp_all add: last_run_def)
qed

section \<open>Written files\<close>

lemma write_clippings_entries: "write_clippings buf cs = buf @ entries cs"
  by (induction cs arbitrary: buf) (simp_all add: entries_def entry_def)

lemma written_Cons:
  "written U out ((t, cs) # d) p =
     (if target_path U out t = p then entries cs @ written U out d p else written U out d p)"
  by (simp add: written_def)

lemma written_notin: "p \<notin> target_path U out ` fst ` set d \<Longrightarrow> written U out d p = []"
  by (induction d) (auto simp: written_def)

lemma save_loop_content:
  "save_loop U out fs d p =
     (if p \<in> target_path U out ` fst ` set d then Some (previous fs p @ written U out d p)
      else fs p)"
proof (induction d arbitrary: fs)
  case Nil
  show ?case by simp
next
  case (Cons kv d)
  obtain t cs where kv: "kv = (t, cs)" by (cases kv)
  let ?q = "target_path U out t"
  let ?fs = "fs(?q \<mapsto> previous fs ?q @ entries cs)"
  have step: "save_loop U out fs (kv # d) p = save_loop U out ?fs d p"
    by (cases "fs ?q") (simp_all add: kv write_clippings_entries open_file_def previous_def)
  show ?case
  proof (cases "p = ?q")
    case True
    then show ?thesis
      unfolding step Cons.IH by (simp add: kv written_Cons written_notin previous_def)
  next
    case False
    then show ?thesis
      unfolding step Cons.IH by (auto simp: kv written_Cons previous_def)
  qed
qed

lemma filter_unique_key:
  assumes "distinct (map fst d)" "(k, v) \<in> set d" "P (k, v)"
    and "\<And>kv. kv \<in> set d \<Longrightarrow> P kv \<Longrightarrow> fst kv = k"
  shows "filter P d = [(k, v)]"
  using assms
proof (induction d)
  case Nil
  then show ?case by simp
next
  case (Cons x d)
  show ?case
  proof (cases "x = (k, v)")
    case True
    have "filter P d = []"
    proof -
      have "\<not> P y" if "y \<in> set d" for y
      proof
        assume "P y"
        with that Cons.prems(4) [of y] have "fst y = k" by simp
        with that have "k \<in> fst ` set d" by force
        with Cons.prems(1) True show False by simp
      qed
      then show ?thesis by (simp add: filter_empty_conv)
    qed
    with True Cons.prems(3) show ?thesis by simp
  next
    case False
    with Cons.prems have in_d: "(k, v) \<in> set d" by simp
    have "\<not> P x"
    proof
      assume "P x"
      with Cons.prems(4) [of x] have "fst x = k" by simp
      with in_d have "fst x \<in> fst ` set d" by (metis fst_conv image_eqI)
      with Cons.prems(1) show False by simp
    qed
    moreover have "filter P d = [(k, v)]"
      using Cons.IH Cons.prems in_d by simp
    ultimately show ?thesis by simp
  qed
qed

section \<open>Sanitized names\<close>

lemma re_sub_delete: "re_sub m [] s = filter (\<lambda>c. \<not> m c) s"
  by (induction s) simp_all

lemma clean_title_filter:
  "clean_title U title = filter (\<lambda>c. word_char U c \<or> py_isspace c \<or> c = 45) title"
  by (simp add: clean_title_def Let_def re_sub_delete not_word_space_hyphen_def)

lemma clean_title_no_slash: "47 \<notin> set (clean_title U title)"
  by (simp add: clean_title_filter word_char_def py_isalnum_def latin1_isalnum_def py_isspace_def)

lemma target_path_under:
  "target_path U out title =
     (if out = [] \<or> last out = 47 then out else out @ [47]) @ clean_title U title @ str ''.md''"
proof -
  have "hd (clean_title U title @ str ''.md'') \<noteq> 47"
    using clean_title_no_slash [of U title]
    by (cases "clean_title U title") (simp_all add: str_def)
  then show ?thesis
    by (simp add: target_path_def os_path_join_def str_def)
qed

text \<open>The definitions to unfold when a closed term is evaluated.\<close>

lemmas eval_defs = str_def marker_def py_strip_def py_lstrip_def py_rstrip_def py_isspace_def
  is_separator_def read_clippings_def read_text_def emit_last_def separator_line_def

lemmas title_defs = title_of_def separate_clippings_by_title_def separate_step_def is_linebreak_def

lemmas name_defs = clean_title_def word_char_def py_isalnum_def latin1_isalnum_def
  not_word_space_hyphen_def target_path_def os_path_join_def save_clippings_to_md_files_def
  open_file_def previous_def written_def entries_def entry_def

section \<open>The splitter\<close>

text \<open>
  C3. For a file with text \<open>src\<close>, \<open>read_clippings\<close> returns, in order, the
  concatenated lines of each non-empty separator-bounded segment of the file, and
  nothing else. No block is empty, so consecutive separator lines emit nothing. When
  the last line is not a separator, the last block is the concatenation of the lines
  after the last separator line.
\<close>

theorem read_clippings_segments:
  assumes "fs filename = Some src"
  shows "\<exists>blocks. read_clippings fs filename = Inr blocks \<and>
           blocks = map concat (filter (\<lambda>s. s \<noteq> []) (segments (file_lines src))) \<and>
           [] \<notin> set blocks \<and>
           (file_lines src \<noteq> [] \<and> \<not> is_separator (last (file_lines src)) \<longrightarrow>
              blocks \<noteq> [] \<and>
              last blocks =
                concat (rev (takeWhile (\<lambda>l. \<not> is_separator l) (rev (file_lines src)))))"
proof -
  have "read_clippings fs filename = Inr (read_text src)"
    using assms by (simp add: read_clippings_def)
  then show ?thesis
    using read_text_segments [of src] read_text_no_empty_block [of src] read_text_last [of src]
    by simp
qed

theorem read_clippings_segments_witness:
  "[str ''f'' \<mapsto> str ''a\<newline>==========\<newline>==========\<newline>b''] (str ''f'') =
      Some (str ''a\<newline>==========\<newline>==========\<newline>b'') \<and>
   read_clippings [str ''f'' \<mapsto> str ''a\<newline>==========\<newline>==========\<newline>b''] (str ''f'') =
      Inr [str ''a\<newline>'', str ''b'']"
  using read_clippings_segments
    [of "[str ''f'' \<mapsto> str ''a\<newline>==========\<newline>==========\<newline>b'']" "str ''f''"
        "str ''a\<newline>==========\<newline>==========\<newline>b''"]
  by (simp add: eval_defs)

text \<open>
  C4, amended. \<^verbatim>\<open>str.strip()\<close> trims both ends, so a line is handled as a separator
  if and only if it is the marker with whitespace before and after it; then the current
  accumulation is stored (if not empty) and reset. Every other line is appended to the
  current accumulation.
\<close>

theorem read_loop_separator:
  "read_loop (clippings, current_clipping) (line # rest) =
     (if (\<exists>pre post. line = pre @ marker @ post \<and> list_all py_isspace pre \<and> list_all py_isspace post)
      then read_loop
             (if current_clipping \<noteq> [] then (clippings @ [concat current_clipping], [])
              else (clippings, current_clipping)) rest
      else read_loop (clippings, current_clipping @ [line]) rest)"
  unfolding is_separator_iff [symmetric] by simp

theorem read_loop_separator_witness:
  "read_loop ([], [str ''a\<newline>'']) [str '' ==========\<newline>''] = ([str ''a\<newline>''], [])"
proof -
  have ex: "\<exists>pre post. str '' ==========\<newline>'' = pre @ marker @ post \<and>
              list_all py_isspace pre \<and> list_all py_isspace post"
    by (rule exI [of _ "[32]"], rule exI [of _ "[10]"]) (simp add: eval_defs)
  have "read_loop ([], [str ''a\<newline>'']) [str '' ==========\<newline>''] =
        read_loop (if [str ''a\<newline>''] \<noteq> [] then ([] @ [concat [str ''a\<newline>'']], [])
                   else ([], [str ''a\<newline>''])) []"
    using ex read_loop_separator [of "[]" "[str ''a\<newline>'']" "str '' ==========\<newline>''" "[]"]
    by (simp only: if_True)
  then show ?thesis by simp
qed

text \<open>
  Trimming only the end of the line \<^verbatim>\<open>" ==========\n"\<close> does not give the marker,
  and yet the line separates the blocks \<^verbatim>\<open>"a\n"\<close> and \<^verbatim>\<open>"b\n"\<close>.
\<close>

theorem separator_trailing_trim_counterexample:
  "py_rstrip (str '' ==========\<newline>'') \<noteq> marker \<and>
   read_clippings [str ''f'' \<mapsto> str ''a\<newline> ==========\<newline>b\<newline>''] (str ''f'') =
     Inr [str ''a\<newline>'', str ''b\<newline>'']"
  by (simp add: eval_defs)

text \<open>
  C5, amended. The blocks are the segments of the source with the empty ones removed,
  each block is the concatenation of its lines as read, and the blocks together are the
  non-separator lines of the source in order. When every separator line of the source
  is the marker followed by a newline, the source is its segments rejoined with the
  marker line, so that rejoining the blocks gives the source up to the empty segments;
  when no segment is empty, rejoining the blocks gives the source itself.
\<close>

theorem rejoin_read_clippings:
  assumes "fs filename = Some src"
  shows "\<exists>blocks. read_clippings fs filename = Inr blocks \<and>
           blocks = filter (\<lambda>b. b \<noteq> []) (map concat (segments (file_lines src))) \<and>
           concat blocks = concat (filter (\<lambda>l. \<not> is_separator l) (file_lines src)) \<and>
           ((\<forall>l\<in>set (file_lines src). is_separator l \<longrightarrow> l = separator_line) \<longrightarrow>
              rejoin (map concat (segments (file_lines src))) = src \<and>
              ([] \<notin> set (segments (file_lines src)) \<longrightarrow> rejoin blocks = src))"
proof -
  let ?segs = "segments (file_lines src)"
  have r: "read_clippings fs filename = Inr (read_text src)"
    using assms by (simp add: read_clippings_def)
  have b: "read_text src = filter (\<lambda>b. b \<noteq> []) (map concat ?segs)"
    using nonempty_blocks_segments [OF file_lines_nonempty, of src] by (simp add: read_text_segments)
  have c: "concat (read_text src) = concat (filter (\<lambda>l. \<not> is_separator l) (file_lines src))"
    by (rule concat_read_text)
  have all: "rejoin (map concat ?segs) = src"
    if "\<forall>l\<in>set (file_lines src). is_separator l \<longrightarrow> l = separator_line"
    using that rejoin_segments [of "file_lines src"] by (simp add: concat_file_lines)
  have full: "read_text src = map concat ?segs" if "[] \<notin> set ?segs"
  proof -
    have "filter (\<lambda>s. s \<noteq> []) ?segs = ?segs"
      using that by (simp add: filter_id_conv) metis
    then show ?thesis by (simp add: read_text_segments)
  qed
  show ?thesis
    using r b c all full by auto
qed

theorem rejoin_read_clippings_witness:
  "[str ''f'' \<mapsto> str ''a\<newline>==========\<newline>b\<newline>c''] (str ''f'') =
      Some (str ''a\<newline>==========\<newline>b\<newline>c'') \<and>
   segments (file_lines (str ''a\<newline>==========\<newline>b\<newline>c'')) =
      [[str ''a\<newline>''], [str ''b\<newline>'', str ''c'']] \<and>
   read_clippings [str ''f'' \<mapsto> str ''a\<newline>==========\<newline>b\<newline>c''] (str ''f'') =
      Inr [str ''a\<newline>'', str ''b\<newline>c''] \<and>
   rejoin [str ''a\<newline>'', str ''b\<newline>c''] = str ''a\<newline>==========\<newline>b\<newline>c''"
  using rejoin_read_clippings
    [of "[str ''f'' \<mapsto> str ''a\<newline>==========\<newline>b\<newline>c'']" "str ''f''"
        "str ''a\<newline>==========\<newline>b\<newline>c''"]
  by (simp add: eval_defs)

text \<open>
  A separator line with a space after the marker: there is no empty segment, and the
  rejoined blocks differ from the source.
\<close>

theorem rejoin_counterexample:
  "read_clippings [str ''f'' \<mapsto> str ''a\<newline>========== \<newline>b\<newline>''] (str ''f'') =
     Inr [str ''a\<newline>'', str ''b\<newline>''] \<and>
   segments (file_lines (str ''a\<newline>========== \<newline>b\<newline>'')) = [[str ''a\<newline>''], [str ''b\<newline>'']] \<and>
   rejoin [str ''a\<newline>'', str ''b\<newline>''] \<noteq> str ''a\<newline>========== \<newline>b\<newline>''"
  by (simp add: eval_defs)

section \<open>The grouper\<close>

text \<open>
  C2. For every sequence of non-empty blocks the grouper returns a dictionary, and its
  entry for a title is the most recent contiguous run of blocks with that title (a
  title that no block has is no key). In particular, for four blocks with the titles
  \<open>a\<close>, \<open>a\<close>, \<open>b\<close>, \<open>a\<close>, where \<open>a \<noteq> b\<close>, the key \<open>a\<close> maps to the list that holds
  the last block only.
\<close>

theorem separate_last_run:
  assumes "[] \<notin> set clippings"
  shows "\<exists>book_dict. separate_clippings_by_title clippings = Inr book_dict \<and>
           (\<forall>t. map_of book_dict t =
              (if Inr t \<in> title_of ` set clippings then Some (last_run t clippings) else None)) \<and>
           (\<forall>a b b1 b2 b3 b4.
              clippings = [b1, b2, b3, b4] \<and> title_of b1 = Inr a \<and> title_of b2 = Inr a \<and>
              title_of b3 = Inr b \<and> title_of b4 = Inr a \<and> a \<noteq> b \<longrightarrow>
              map_of book_dict a = Some [b4])"
proof -
  from separate_invariant [OF assms] obtain d where
    d: "separate_clippings_by_title clippings = Inr d"
    and run: "\<forall>k. map_of d k =
       (if Inr k \<in> title_of ` set clippings then Some (last_run k clippings) else None)"
    by blast
  have "map_of d a = Some [b4]"
    if "clippings = [b1, b2, b3, b4]" "title_of b1 = Inr a" "title_of b2 = Inr a"
      "title_of b3 = Inr b" "title_of b4 = Inr a" "a \<noteq> b" for a b b1 b2 b3 b4
  proof -
    have "last_run a clippings = [b4]"
      using that by (simp add: last_run_def)
    moreover have "Inr a \<in> title_of ` set clippings"
      using that by force
    ultimately show ?thesis using run by simp
  qed
  with d run show ?thesis by blast
qed

theorem separate_last_run_witness:
  "[] \<notin> set [str ''A\<newline>1'', str ''A\<newline>2'', str ''B\<newline>3'', str ''A\<newline>4''] \<and>
   separate_clippings_by_title [str ''A\<newline>1'', str ''A\<newline>2'', str ''B\<newline>3'', str ''A\<newline>4''] =
     Inr [(str ''A'', [str ''A\<newline>4'']), (str ''B'', [str ''B\<newline>3''])]"
proof -
  have ne: "[] \<notin> set [str ''A\<newline>1'', str ''A\<newline>2'', str ''B\<newline>3'', str ''A\<newline>4'']"
    by (simp add: str_def)
  from separate_last_run [OF ne] obtain d where
    "separate_clippings_by_title [str ''A\<newline>1'', str ''A\<newline>2'', str ''B\<newline>3'', str ''A\<newline>4''] = Inr d"
    by blast
  moreover have "separate_clippings_by_title [str ''A\<newline>1'', str ''A\<newline>2'', str ''B\<newline>3'', str ''A\<newline>4''] =
     Inr [(str ''A'', [str ''A\<newline>4'']), (str ''B'', [str ''B\<newline>3''])]"
    by (simp add: eval_defs title_defs)
  ultimately show ?thesis using ne by simp
qed

text \<open>
  C9. Every block that \<open>read_clippings\<close> returns is a non-empty string with at least
  one line, so its title is extracted without a fault, and grouping the blocks of any
  file returns a dictionary and no error. The only fault of the title extraction is the
  \<open>IndexError\<close> on the empty block, which the splitter never returns.
\<close>

theorem splitter_blocks_have_titles:
  assumes "fs filename = Some src"
  shows "\<exists>blocks. read_clippings fs filename = Inr blocks \<and>
           (\<forall>b\<in>set blocks. b \<noteq> [] \<and> splitlines b \<noteq> [] \<and> (\<exists>t. title_of b = Inr t)) \<and>
           (\<exists>book_dict. separate_clippings_by_title blocks = Inr book_dict) \<and>
           (\<forall>b e. title_of b = Inl e \<longleftrightarrow> b = [] \<and> e = IndexError)"
proof -
  have r: "read_clippings fs filename = Inr (read_text src)"
    using assms by (simp add: read_clippings_def)
  have ne: "[] \<notin> set (read_text src)"
    by (rule read_text_no_empty_block)
  then have "\<forall>b\<in>set (read_text src). b \<noteq> [] \<and> splitlines b \<noteq> [] \<and> (\<exists>t. title_of b = Inr t)"
    using splitlines_nonempty title_of_Inr by metis
  moreover have "\<exists>book_dict. separate_clippings_by_title (read_text src) = Inr book_dict"
    using separate_invariant [OF ne] by blast
  ultimately show ?thesis using r title_of_Inl by simp
qed

theorem splitter_blocks_have_titles_witness:
  "[str ''f'' \<mapsto> str ''A\<newline>x\<newline>==========\<newline>B\<newline>y\<newline>''] (str ''f'') =
     Some (str ''A\<newline>x\<newline>==========\<newline>B\<newline>y\<newline>'') \<and>
   read_clippings [str ''f'' \<mapsto> str ''A\<newline>x\<newline>==========\<newline>B\<newline>y\<newline>''] (str ''f'') =
     Inr [str ''A\<newline>x\<newline>'', str ''B\<newline>y\<newline>''] \<and>
   separate_clippings_by_title [str ''A\<newline>x\<newline>'', str ''B\<newline>y\<newline>''] =
     Inr [(str ''A'', [str ''A\<newline>x\<newline>'']), (str ''B'', [str ''B\<newline>y\<newline>''])]"
proof -
  have f: "[str ''f'' \<mapsto> str ''A\<newline>x\<newline>==========\<newline>B\<newline>y\<newline>''] (str ''f'') =
     Some (str ''A\<newline>x\<newline>==========\<newline>B\<newline>y\<newline>'')"
    by simp
  from splitter_blocks_have_titles
    [of "[str ''f'' \<mapsto> str ''A\<newline>x\<newline>==========\<newline>B\<newline>y\<newline>'']" "str ''f''"
        "str ''A\<newline>x\<newline>==========\<newline>B\<newline>y\<newline>''", OF f]
  obtain blocks where
    "read_clippings [str ''f'' \<mapsto> str ''A\<newline>x\<newline>==========\<newline>B\<newline>y\<newline>''] (str ''f'') = Inr blocks"
    by blast
  moreover have "read_clippings [str ''f'' \<mapsto> str ''A\<newline>x\<newline>==========\<newline>B\<newline>y\<newline>''] (str ''f'') =
     Inr [str ''A\<newline>x\<newline>'', str ''B\<newline>y\<newline>'']"
    by (simp add: eval_defs)
  moreover have "separate_clippings_by_title [str ''A\<newline>x\<newline>'', str ''B\<newline>y\<newline>''] =
     Inr [(str ''A'', [str ''A\<newline>x\<newline>'']), (str ''B'', [str ''B\<newline>y\<newline>''])]"
    by (simp add: eval_defs title_defs)
  ultimately show ?thesis using f by simp
qed

section \<open>The sanitizer\<close>

text \<open>
  C1, amended. \<open>clean_title\<close> keeps, in order, exactly the characters of the title that
  are word characters, whitespace or the hyphen. An alphanumeric character of the title
  is always kept; the accented letter U+00E9 is alphanumeric, so it is neither removed
  nor transliterated, and the example title loses its colon and its slash only.
\<close>

theorem clean_title_keeps_word_chars:
  "clean_title U title = filter (\<lambda>c. word_char U c \<or> py_isspace c \<or> c = 45) title \<and>
   (\<forall>c\<in>set title. py_isalnum U c \<longrightarrow> c \<in> set (clean_title U title)) \<and>
   py_isalnum U 233 \<and>
   clean_title U (str ''Caf'' @ [233] @ str '': Life/Times'') =
     str ''Caf'' @ [233] @ str '' LifeTimes''"
  by (simp add: clean_title_filter word_char_def py_isalnum_def latin1_isalnum_def
      py_isspace_def str_def)

theorem clean_title_keeps_word_chars_witness:
  "\<forall>U. 233 \<in> set (str ''Caf'' @ [233] @ str '': Life/Times'') \<and> py_isalnum U 233 \<and>
        233 \<in> set (clean_title U (str ''Caf'' @ [233] @ str '': Life/Times''))"
proof
  fix U
  have "\<forall>c\<in>set (str ''Caf'' @ [233] @ str '': Life/Times'').
          py_isalnum U c \<longrightarrow> c \<in> set (clean_title U (str ''Caf'' @ [233] @ str '': Life/Times''))"
    and "py_isalnum U 233"
    using clean_title_keeps_word_chars [of U "str ''Caf'' @ [233] @ str '': Life/Times''"]
    by blast+
  moreover have "233 \<in> set (str ''Caf'' @ [233] @ str '': Life/Times'')"
    by simp
  ultimately show "233 \<in> set (str ''Caf'' @ [233] @ str '': Life/Times'') \<and> py_isalnum U 233 \<and>
        233 \<in> set (clean_title U (str ''Caf'' @ [233] @ str '': Life/Times''))"
    by blast
qed

text \<open>
  Whatever the Unicode database says above U+00FF, the sanitized example title still
  holds the accented letter.
\<close>

theorem accented_letter_kept_counterexample:
  "\<forall>U. clean_title U (str ''Caf'' @ [233] @ str '': Life/Times'') =
          str ''Caf'' @ [233] @ str '' LifeTimes'' \<and>
        233 \<in> set (clean_title U (str ''Caf'' @ [233] @ str '': Life/Times''))"
  by (simp add: eval_defs name_defs)

text \<open>
  C6. \<open>clean_title\<close> returns the title with every character that matches
  \<^verbatim>\<open>[^\w\s-]\<close> deleted. The normal form, the ASCII encoding and the two replacements
  are computed and dropped: the result is the same for every normalization function.
\<close>

theorem clean_title_delete_matching:
  "clean_title U title = delete_matching U title \<and>
   clean_title (U\<lparr>nfkd := f\<rparr>) title = clean_title U title"
  by (simp add: clean_title_def delete_matching_def re_sub_delete not_word_space_hyphen_def
      word_char_def py_isalnum_def)

theorem clean_title_delete_matching_witness:
  "\<forall>U. clean_title U (str ''A/B: C-d_e'') = str ''AB C-d_e'' \<and>
        delete_matching U (str ''A/B: C-d_e'') = str ''AB C-d_e''"
proof
  fix U
  have "delete_matching U (str ''A/B: C-d_e'') = str ''AB C-d_e''"
    by (simp add: delete_matching_def eval_defs name_defs)
  then show "clean_title U (str ''A/B: C-d_e'') = str ''AB C-d_e'' \<and>
        delete_matching U (str ''A/B: C-d_e'') = str ''AB C-d_e''"
    using clean_title_delete_matching [of U "str ''A/B: C-d_e''"] by simp
qed

section \<open>The writer\<close>

text \<open>
  C7. After a run of the writer, a file that is the target of some title holds what it
  held before followed by what the run wrote into it, and every other file is
  unchanged. The target of a title is the sanitized title with the extension
  \<^verbatim>\<open>.md\<close>, under the output directory. What is written for a list of blocks is, for
  each block in order, a newline, the block, and the line \<^verbatim>\<open>---\<close> with its newline;
  a title whose target no other title shares gets exactly that for its own list.
\<close>

theorem save_clippings_content:
  "save_clippings_to_md_files U fs book_dict output_dir p =
     (if p \<in> target_path U output_dir ` fst ` set book_dict
      then Some (previous fs p @ written U output_dir book_dict p) else fs p) \<and>
   target_path U output_dir title =
     (if output_dir = [] \<or> last output_dir = 47 then output_dir else output_dir @ [47]) @
       clean_title U title @ str ''.md'' \<and>
   entries clippings = concat (map (\<lambda>b. [10] @ b @ [10] @ str ''---'' @ [10]) clippings) \<and>
   (distinct (map fst book_dict) \<and> (title, clippings) \<in> set book_dict \<and>
    (\<forall>t\<in>fst ` set book_dict.
       target_path U output_dir t = target_path U output_dir title \<longrightarrow> t = title) \<longrightarrow>
      save_clippings_to_md_files U fs book_dict output_dir (target_path U output_dir title) =
        Some (previous fs (target_path U output_dir title) @ entries clippings))"
proof -
  have a: "save_clippings_to_md_files U fs book_dict output_dir q =
     (if q \<in> target_path U output_dir ` fst ` set book_dict
      then Some (previous fs q @ written U output_dir book_dict q) else fs q)" for q
    by (simp add: save_clippings_to_md_files_def save_loop_content)
  have "entry = (\<lambda>b. [10] @ b @ [10] @ str ''---'' @ [10])"
    by (rule ext) (simp add: entry_def)
  then have b: "entries clippings = concat (map (\<lambda>b. [10] @ b @ [10] @ str ''---'' @ [10]) clippings)"
    by (simp only: entries_def)
  have c: "save_clippings_to_md_files U fs book_dict output_dir (target_path U output_dir title) =
        Some (previous fs (target_path U output_dir title) @ entries clippings)"
    if "distinct (map fst book_dict)" "(title, clippings) \<in> set book_dict"
      "\<forall>t\<in>fst ` set book_dict.
         target_path U output_dir t = target_path U output_dir title \<longrightarrow> t = title"
  proof -
    have "filter (\<lambda>kv. target_path U output_dir (fst kv) = target_path U output_dir title) book_dict
            = [(title, clippings)]"
      using that by (intro filter_unique_key) auto
    then have "written U output_dir book_dict (target_path U output_dir title) = entries clippings"
      by (simp add: written_def)
    moreover have "target_path U output_dir title \<in> target_path U output_dir ` fst ` set book_dict"
      using that(2) by force
    ultimately show ?thesis using a by simp
  qed
  show ?thesis
    using a [of p] b c target_path_under [of U output_dir title] by blast
qed

theorem save_clippings_content_witness:
  "\<forall>U. save_clippings_to_md_files U Map.empty
          [(str ''A:'', [str ''x'']), (str ''B'', [str ''y'', str ''z''])] (str ''clippings'')
          (str ''clippings/B.md'') =
        Some (str ''\<newline>y\<newline>---\<newline>\<newline>z\<newline>---\<newline>'')"
proof
  fix U
  let ?d = "[(str ''A:'', [str ''x'']), (str ''B'', [str ''y'', str ''z''])]"
  have p: "target_path U (str ''clippings'') (str ''B'') = str ''clippings/B.md''"
    by (simp add: eval_defs name_defs)
  have "distinct (map fst ?d) \<and> (str ''B'', [str ''y'', str ''z'']) \<in> set ?d \<and>
        (\<forall>t\<in>fst ` set ?d.
           target_path U (str ''clippings'') t = target_path U (str ''clippings'') (str ''B'') \<longrightarrow>
           t = str ''B'')"
    by (simp add: eval_defs name_defs)
  then have "save_clippings_to_md_files U Map.empty ?d (str ''clippings'')
               (target_path U (str ''clippings'') (str ''B'')) =
             Some (previous Map.empty (target_path U (str ''clippings'') (str ''B'')) @
                   entries [str ''y'', str ''z''])"
    using save_clippings_content
      [of U Map.empty ?d "str ''clippings''" "[]" "str ''B''" "[str ''y'', str ''z'']"]
    by blast
  then show "save_clippings_to_md_files U Map.empty ?d (str ''clippings'') (str ''clippings/B.md'') =
        Some (str ''\<newline>y\<newline>---\<newline>\<newline>z\<newline>---\<newline>'')"
    unfolding p by (simp add: previous_def entries_def entry_def str_def)
qed

text \<open>
  C8. Running the writer twice with the same dictionary and output directory: the
  content a target file has after the first run is a prefix of its content after the
  second run, which appends the same entries once more.
\<close>

theorem save_twice_appends:
  assumes "p \<in> target_path U output_dir ` fst ` set book_dict"
  shows "\<exists>first.
           save_clippings_to_md_files U fs book_dict output_dir p = Some first \<and>
           first = previous fs p @ written U output_dir book_dict p \<and>
           save_clippings_to_md_files U (save_clippings_to_md_files U fs book_dict output_dir)
               book_dict output_dir p =
             Some (first @ written U output_dir book_dict p)"
  using assms by (simp add: save_clippings_to_md_files_def save_loop_content previous_def)

theorem save_twice_appends_witness:
  "\<forall>U. str ''clippings/B.md'' \<in>
          target_path U (str ''clippings'') ` fst ` set [(str ''A:'', [str ''x'']), (str ''B'', [str ''y''])] \<and>
        save_clippings_to_md_files U Map.empty
          [(str ''A:'', [str ''x'']), (str ''B'', [str ''y''])] (str ''clippings'')
          (str ''clippings/B.md'') = Some (str ''\<newline>y\<newline>---\<newline>'') \<and>
        save_clippings_to_md_files U
          (save_clippings_to_md_files U Map.empty
             [(str ''A:'', [str ''x'']), (str ''B'', [str ''y''])] (str ''clippings''))
          [(str ''A:'', [str ''x'']), (str ''B'', [str ''y''])] (str ''clippings'')
          (str ''clippings/B.md'') = Some (str ''\<newline>y\<newline>---\<newline>\<newline>y\<newline>---\<newline>'')"
proof
  fix U
  let ?d = "[(str ''A:'', [str ''x'']), (str ''B'', [str ''y''])]"
  have p: "str ''clippings/B.md'' \<in> target_path U (str ''clippings'') ` fst ` set ?d"
    by (simp add: eval_defs name_defs)
  have w: "written U (str ''clippings'') ?d (str ''clippings/B.md'') = str ''\<newline>y\<newline>---\<newline>''"
    by (simp add: eval_defs name_defs)
  from save_twice_appends [OF p, of Map.empty] p
  show "str ''clippings/B.md'' \<in> target_path U (str ''clippings'') ` fst ` set ?d \<and>
        save_clippings_to_md_files U Map.empty ?d (str ''clippings'') (str ''clippings/B.md'') =
          Some (str ''\<newline>y\<newline>---\<newline>'') \<and>
        save_clippings_to_md_files U
          (save_clippings_to_md_files U Map.empty ?d (str ''clippings''))
          ?d (str ''clippings'') (str ''clippings/B.md'') =
          Some (str ''\<newline>y\<newline>---\<newline>\<newline>y\<newline>---\<newline>'')"
    unfolding w by (simp add: previous_def str_def)
qed

text \<open>
  C10, amended. For every sequence of non-empty blocks the keys of the dictionary are
  distinct and are exactly the titles of the blocks; every key holds the last run of
  its title, which is not empty. The files the writer creates or extends are exactly
  the targets of these titles, one file for each distinct target.
\<close>

theorem separate_keys_and_files:
  assumes "[] \<notin> set clippings"
  shows "\<exists>book_dict. separate_clippings_by_title clippings = Inr book_dict \<and>
           Inr ` fst ` set book_dict = title_of ` set clippings \<and>
           distinct (map fst book_dict) \<and>
           (\<forall>t\<in>fst ` set book_dict.
              map_of book_dict t = Some (last_run t clippings) \<and> last_run t clippings \<noteq> []) \<and>
           dom (save_clippings_to_md_files U fs book_dict output_dir) =
             dom fs \<union> target_path U output_dir ` fst ` set book_dict"
proof -
  from separate_invariant [OF assms] obtain d where
    d: "separate_clippings_by_title clippings = Inr d" "distinct (map fst d)"
    and run: "\<forall>k. map_of d k =
       (if Inr k \<in> title_of ` set clippings then Some (last_run k clippings) else None)"
    by blast
  have keys: "Inr ` fst ` set d = title_of ` set clippings"
    using keys_of_lookup [OF run assms] .
  have runs: "\<forall>t\<in>fst ` set d.
      map_of d t = Some (last_run t clippings) \<and> last_run t clippings \<noteq> []"
  proof
    fix t assume "t \<in> fst ` set d"
    then have "Inr t \<in> title_of ` set clippings" using keys by blast
    then show "map_of d t = Some (last_run t clippings) \<and> last_run t clippings \<noteq> []"
      using run last_run_nonempty by simp
  qed
  have "dom (save_clippings_to_md_files U fs d output_dir) =
          dom fs \<union> target_path U output_dir ` fst ` set d"
    by (auto simp: save_clippings_to_md_files_def save_loop_content dom_def split: if_splits)
  with d keys runs show ?thesis by blast
qed

theorem separate_keys_and_files_witness:
  "[] \<notin> set [str ''A\<newline>1'', str ''B\<newline>2'', str ''A\<newline>3''] \<and>
   separate_clippings_by_title [str ''A\<newline>1'', str ''B\<newline>2'', str ''A\<newline>3''] =
     Inr [(str ''A'', [str ''A\<newline>3'']), (str ''B'', [str ''B\<newline>2''])] \<and>
   (\<forall>U. dom (save_clippings_to_md_files U Map.empty
              [(str ''A'', [str ''A\<newline>3'']), (str ''B'', [str ''B\<newline>2''])] (str ''clippings'')) =
         {str ''clippings/A.md'', str ''clippings/B.md''})"
proof -
  have ne: "[] \<notin> set [str ''A\<newline>1'', str ''B\<newline>2'', str ''A\<newline>3'']"
    by (simp add: str_def)
  have sep: "separate_clippings_by_title [str ''A\<newline>1'', str ''B\<newline>2'', str ''A\<newline>3''] =
     Inr [(str ''A'', [str ''A\<newline>3'']), (str ''B'', [str ''B\<newline>2''])]"
    by (simp add: eval_defs title_defs)
  have "dom (save_clippings_to_md_files U Map.empty
              [(str ''A'', [str ''A\<newline>3'']), (str ''B'', [str ''B\<newline>2''])] (str ''clippings'')) =
         {str ''clippings/A.md'', str ''clippings/B.md''}" for U
  proof -
    from separate_keys_and_files [OF ne, of U Map.empty "str ''clippings''"] sep
    have "dom (save_clippings_to_md_files U Map.empty
              [(str ''A'', [str ''A\<newline>3'']), (str ''B'', [str ''B\<newline>2''])] (str ''clippings'')) =
          dom (Map.empty :: filesystem) \<union> target_path U (str ''clippings'') `
            fst ` set [(str ''A'', [str ''A\<newline>3'']), (str ''B'', [str ''B\<newline>2''])]"
      by auto
    then show ?thesis
      by (simp add: eval_defs name_defs insert_commute)
  qed
  with ne sep show ?thesis by blast
qed

text \<open>
  The titles \<^verbatim>\<open>A\<close> and \<^verbatim>\<open>A!\<close> are two keys of the dictionary and have the same
  sanitized name: the writer produces a single file for them.
\<close>

theorem one_file_two_titles_counterexample:
  "separate_clippings_by_title [str ''A\<newline>x'', str ''A!\<newline>y''] =
     Inr [(str ''A'', [str ''A\<newline>x'']), (str ''A!'', [str ''A!\<newline>y''])] \<and>
   (\<forall>U. dom (save_clippings_to_md_files U Map.empty
              [(str ''A'', [str ''A\<newline>x'']), (str ''A!'', [str ''A!\<newline>y''])] (str ''clippings'')) =
         {str ''clippings/A.md''})"
  by (simp add: eval_defs title_defs name_defs)

end
